theory Spec2Isabelle
  imports Complex_Main "HOL-Library.Multiset"
begin

section \<open>The lottery sampler of \<^verbatim>\<open>src/utils/nbaLottery.js\<close>\<close>

subsection \<open>Data model\<close>

text \<open>
  A team object as the sampler reads it: the identifier \<^verbatim>\<open>userId\<close> (the empty string
  stands for every falsy identifier, missing ones included), a display name that stands
  for the payload the sampler only carries along, and \<^verbatim>\<open>combinations\<close>, which may be
  missing (\<open>None\<close>). Weights are integers, as the data model of the specification has
  them; the code itself also tests for weights below zero, so negative ones are kept.
\<close>

record team =
  userId :: string
  teamName :: string
  combinations :: "int option"

text \<open>The expression \<^verbatim>\<open>team.combinations || 0\<close>.\<close>

definition weight :: "'a team_scheme \<Rightarrow> int" where
  "weight t = (case combinations t of None \<Rightarrow> 0 | Some c \<Rightarrow> c)"

datatype error =
    EmptySelect   \<comment> \<open>\<^verbatim>\<open>Cannot select from empty teams array\<close>\<close>
  | ZeroTotal     \<comment> \<open>\<^verbatim>\<open>Total combinations cannot be zero\<close>\<close>
  | EmptyRun      \<comment> \<open>\<^verbatim>\<open>Cannot run lottery with empty teams array\<close>\<close>
  | InvalidTeam   \<comment> \<open>\<^verbatim>\<open>Invalid team selected during lottery\<close>\<close>

subsection \<open>One draw\<close>

text \<open>\<^verbatim>\<open>combinations.reduce((sum, count) => sum + (count || 0), 0)\<close> on integers.\<close>

definition calculateTotalCombinations :: "int list \<Rightarrow> int" where
  "calculateTotalCombinations combos = foldl (\<lambda>sum count. sum + count) 0 combos"

text \<open>
  \<^verbatim>\<open>Math.floor(Math.random() * totalCombinations) + 1\<close>, where \<open>u\<close> is the value
  that \<^verbatim>\<open>Math.random()\<close> returned.
\<close>

definition drawRandom :: "real \<Rightarrow> int \<Rightarrow> int" where
  "drawRandom u totalCombinations = \<lfloor>u * of_int totalCombinations\<rfloor> + 1"

text \<open>
  The \<^verbatim>\<open>for (const team of teams)\<close> loop: \<open>Some team\<close> when the loop returns from
  inside, \<open>None\<close> when it runs to its end.
\<close>

fun walk :: "team list \<Rightarrow> int \<Rightarrow> int \<Rightarrow> team option" where
  "walk [] random cumulative = None"
| "walk (t # rest) random cumulative =
     (if weight t \<le> 0 then walk rest random cumulative
      else if random \<le> cumulative + weight t then Some t
      else walk rest random (cumulative + weight t))"

definition selectWinnerByCombinations :: "team list \<Rightarrow> real \<Rightarrow> error + team" where
  "selectWinnerByCombinations teams u =
     (if teams = [] then Inl EmptySelect
      else let totalCombinations = calculateTotalCombinations (map weight teams)
        in if totalCombinations = 0 then Inl ZeroTotal
           else (case walk teams (drawRandom u totalCombinations) 0 of
                   Some t \<Rightarrow> Inr t
                 | None \<Rightarrow> Inr (last teams)))"

text \<open>The sum of the weights above zero, the ones the walk accumulates.\<close>

definition positiveSum :: "team list \<Rightarrow> int" where
  "positiveSum teams = sum_list (filter (\<lambda>w. 0 < w) (map weight teams))"

subsection \<open>The run\<close>

text \<open>
  A result record \<^verbatim>\<open>{...selected, pickNumber, position: displayPosition}\<close>: the fields
  of the team, then the two ranks.
\<close>

record selection = team +
  pickNumber :: nat
  position :: int

definition mkSelection :: "team \<Rightarrow> nat \<Rightarrow> int \<Rightarrow> selection" where
  "mkSelection selected pick displayPosition =
     \<lparr>userId = userId selected, teamName = teamName selected,
      combinations = combinations selected,
      pickNumber = pick, position = displayPosition\<rparr>"

text \<open>The team a result record was made from.\<close>

definition entity :: "selection \<Rightarrow> team" where
  "entity s = \<lparr>userId = userId s, teamName = teamName s, combinations = combinations s\<rparr>"

text \<open>
  What a run does beyond returning: it waits on a timer (with the delay it was given) and
  it calls \<^verbatim>\<open>onSelection(selected, displayPosition, pickNumber)\<close>.
\<close>

datatype event = Wait real | OnSelection team int nat

definition DEFAULT_DELAY_MS :: real where
  "DEFAULT_DELAY_MS = 1500"

text \<open>
  The default parameter and the check \<^verbatim>\<open>typeof delay !== 'number' || delay < 0\<close>;
  \<open>None\<close> is a delay that is missing or not a number.
\<close>

definition effectiveDelay :: "real option \<Rightarrow> real" where
  "effectiveDelay delay =
     (case delay of None \<Rightarrow> DEFAULT_DELAY_MS
      | Some d \<Rightarrow> if d < 0 then DEFAULT_DELAY_MS else d)"

text \<open>
  The loop \<^verbatim>\<open>for (let pickNumber = 1; pickNumber <= totalTeams; pickNumber++)\<close>.
  \<open>rnd k\<close> is the value of the \<open>k\<close>-th call of \<^verbatim>\<open>Math.random()\<close> of the run,
  counted from 0; draw \<open>pickNumber\<close> makes call \<open>pickNumber - 1\<close>. \<open>onSelection\<close> says
  whether the caller passed a function. An error ends the run with the events so far.
\<close>

function lotteryLoop ::
  "(nat \<Rightarrow> real) \<Rightarrow> bool \<Rightarrow> real \<Rightarrow> nat \<Rightarrow> nat \<Rightarrow> team list \<Rightarrow> selection list \<Rightarrow> event list
     \<Rightarrow> (error + selection list) \<times> event list" where
  "lotteryLoop rnd onSelection delay totalTeams pick availableTeams selections trace =
     (if pick \<le> totalTeams then
        (case selectWinnerByCombinations availableTeams (rnd (pick - 1)) of
           Inl e \<Rightarrow> (Inl e, trace @ [Wait delay])
         | Inr selected \<Rightarrow>
             if userId selected = [] then (Inl InvalidTeam, trace @ [Wait delay])
             else lotteryLoop rnd onSelection delay totalTeams (Suc pick)
                    (filter (\<lambda>t. userId t \<noteq> userId selected) availableTeams)
                    (mkSelection selected pick (int totalTeams - int pick + 1) # selections)
                    (trace @ [Wait delay] @
                       (if onSelection
                        then [OnSelection selected (int totalTeams - int pick + 1) pick]
                        else [])))
      else (Inr selections, trace))"
  by pat_completeness auto
termination
  by (relation "measure (\<lambda>(rnd, onSelection, delay, totalTeams, pick, rest). Suc totalTeams - pick)")
    auto

definition runNBALottery ::
  "team list \<Rightarrow> bool \<Rightarrow> real option \<Rightarrow> (nat \<Rightarrow> real) \<Rightarrow> (error + selection list) \<times> event list" where
  "runNBALottery teams onSelection delay rnd =
     (if teams = [] then (Inl EmptyRun, [])
      else lotteryLoop rnd onSelection (effectiveDelay delay) (length teams) 1 teams [] [])"

text \<open>The calls of the observer in a trace, in order.\<close>

fun callbacks :: "event list \<Rightarrow> (team \<times> int \<times> nat) list" where
  "callbacks [] = []"
| "callbacks (Wait d # es) = callbacks es"
| "callbacks (OnSelection t d p # es) = (t, d, p) # callbacks es"

text \<open>
  The events of a run in which every draw is followed by one call of the observer: for
  each call the timer wait of its draw, then the call.
\<close>

fun reveal :: "real \<Rightarrow> (team \<times> int \<times> nat) list \<Rightarrow> event list" where
  "reveal d [] = []"
| "reveal d ((t, dp, k) # cbs) = Wait d # OnSelection t dp k # reveal d cbs"

text \<open>
  \<^verbatim>\<open>availableTeams\<close> after the draws that led to the calls \<open>cbs\<close>: each draw filters
  the identifier of the entity it selected out of the pool.
\<close>

definition poolAfter :: "team list \<Rightarrow> (team \<times> int \<times> nat) list \<Rightarrow> team list" where
  "poolAfter teams cbs = filter (\<lambda>x. userId x \<notin> set (map (\<lambda>(t, dp, k). userId t) cbs)) teams"

subsection \<open>Example inputs\<close>

definition teamA :: team where
  "teamA = \<lparr>userId = ''a'', teamName = ''A'', combinations = Some 10\<rparr>"

definition teamB :: team where
  "teamB = \<lparr>userId = ''b'', teamName = ''B'', combinations = Some 5\<rparr>"

definition teamZ :: team where
  "teamZ = \<lparr>userId = ''z'', teamName = ''Z'', combinations = Some 0\<rparr>"

definition teamE :: team where
  "teamE = \<lparr>userId = [], teamName = ''E'', combinations = Some 3\<rparr>"

definition teamY :: team where
  "teamY = \<lparr>userId = ''y'', teamName = ''Y'', combinations = None\<rparr>"

text \<open>A source of random numbers that returns the same value at every call.\<close>

definition constantRandom :: "real \<Rightarrow> nat \<Rightarrow> real" where
  "constantRandom u k = u"

section \<open>The weight generators of \<^verbatim>\<open>src/utils/combinations.js\<close>\<close>








section \<open>The sampler on an explicit store\<close>

text \<open>
  Arrays and objects live in a store and are passed by address. A cell is a team object, a
  result record, an array of references or an array of numbers. New cells are taken at
  \<open>nextFree\<close>, which only grows, so the address of a new cell is never one in use.
\<close>

type_synonym addr = nat

datatype cell =
    TeamObj team
  | SelectionObj selection
  | RefArray "addr list"
  | NumArray "int list"

record store =
  cells :: "addr \<Rightarrow> cell option"
  nextFree :: addr

definition alloc :: "store \<Rightarrow> cell \<Rightarrow> addr \<times> store" where
  "alloc h c = (nextFree h, h\<lparr>cells := (cells h)(nextFree h \<mapsto> c), nextFree := Suc (nextFree h)\<rparr>)"

text \<open>\<^verbatim>\<open>Array.isArray(teams)\<close> and the elements of the array.\<close>

definition readArray :: "store \<Rightarrow> addr \<Rightarrow> addr list option" where
  "readArray h a = (case cells h a of Some (RefArray refs) \<Rightarrow> Some refs | _ \<Rightarrow> None)"

definition readTeam :: "store \<Rightarrow> addr \<Rightarrow> team option" where
  "readTeam h a = (case cells h a of Some (TeamObj t) \<Rightarrow> Some t | _ \<Rightarrow> None)"

text \<open>\<^verbatim>\<open>selections.unshift(selection)\<close>: the one write to a cell that already exists.\<close>

definition unshift :: "store \<Rightarrow> addr \<Rightarrow> addr \<Rightarrow> store" where
  "unshift h a x =
     (case cells h a of
        Some (RefArray refs) \<Rightarrow> h\<lparr>cells := (cells h)(a \<mapsto> RefArray (x # refs))\<rparr>
      | _ \<Rightarrow> h)"

text \<open>The walk over references; each element is the address with the object read at it.\<close>

fun s_walk :: "(addr \<times> team) list \<Rightarrow> int \<Rightarrow> int \<Rightarrow> addr option" where
  "s_walk [] random cumulative = None"
| "s_walk ((a, t) # rest) random cumulative =
     (if weight t \<le> 0 then s_walk rest random cumulative
      else if random \<le> cumulative + weight t then Some a
      else s_walk rest random (cumulative + weight t))"

text \<open>
  \<^verbatim>\<open>selectWinnerByCombinations\<close> on the store. \<^verbatim>\<open>teams.map(...)\<close> reads every element
  and makes a new array of numbers; an element that is no team object ends the call with
  \<open>NotATeam\<close>. The result is the address of the selected object.
\<close>

datatype s_error = Raised error | NotATeam

definition s_selectWinnerByCombinations ::
  "store \<Rightarrow> addr \<Rightarrow> real \<Rightarrow> (s_error + addr) \<times> store" where
  "s_selectWinnerByCombinations h teams u =
     (case readArray h teams of
        None \<Rightarrow> (Inl (Raised EmptySelect), h)
      | Some refs \<Rightarrow>
          if refs = [] then (Inl (Raised EmptySelect), h)
          else (case those (map (readTeam h) refs) of
                  None \<Rightarrow> (Inl NotATeam, h)
                | Some ts \<Rightarrow>
                    let (weights, h1) = alloc h (NumArray (map weight ts));
                        totalCombinations = calculateTotalCombinations (map weight ts)
                    in if totalCombinations = 0 then (Inl (Raised ZeroTotal), h1)
                       else (case s_walk (zip refs ts) (drawRandom u totalCombinations) 0 of
                               Some a \<Rightarrow> (Inr a, h1)
                             | None \<Rightarrow> (Inr (last refs), h1))))"

datatype s_event = SWait real | SOnSelection addr int nat

text \<open>
  The loop of \<^verbatim>\<open>runNBALottery\<close> on the store: \<^verbatim>\<open>filter\<close> makes a new array, the
  object literal makes a new object, \<^verbatim>\<open>unshift\<close> writes to the array of results.
\<close>

function s_lotteryLoop ::
  "(nat \<Rightarrow> real) \<Rightarrow> bool \<Rightarrow> real \<Rightarrow> nat \<Rightarrow> nat \<Rightarrow> addr \<Rightarrow> addr \<Rightarrow> store \<Rightarrow> s_event list
     \<Rightarrow> (s_error + addr) \<times> store \<times> s_event list" where
  "s_lotteryLoop rnd onSelection delay totalTeams pick availableTeams selections h trace =
     (if pick \<le> totalTeams then
        (case s_selectWinnerByCombinations h availableTeams (rnd (pick - 1)) of
           (Inl e, h1) \<Rightarrow> (Inl e, h1, trace @ [SWait delay])
         | (Inr selected, h1) \<Rightarrow>
             (case readTeam h1 selected of
                None \<Rightarrow> (Inl (Raised InvalidTeam), h1, trace @ [SWait delay])
              | Some st \<Rightarrow>
                  if userId st = [] then (Inl (Raised InvalidTeam), h1, trace @ [SWait delay])
                  else
                    let refs = (case readArray h1 availableTeams of Some rs \<Rightarrow> rs | None \<Rightarrow> []);
                        (available', h2) =
                          alloc h1 (RefArray
                            (filter (\<lambda>a. map_option userId (readTeam h1 a) \<noteq> Some (userId st)) refs));
                        displayPosition = int totalTeams - int pick + 1;
                        (selection, h3) =
                          alloc h2 (SelectionObj (mkSelection st pick displayPosition));
                        h4 = unshift h3 selections selection
                    in s_lotteryLoop rnd onSelection delay totalTeams (Suc pick)
                         available' selections h4
                         (trace @ [SWait delay] @
                            (if onSelection then [SOnSelection selected displayPosition pick]
                             else []))))
      else (Inr selections, h, trace))"
  by pat_completeness auto
termination
  by (relation "measure (\<lambda>(rnd, onSelection, delay, totalTeams, pick, rest). Suc totalTeams - pick)")
    auto

definition s_runNBALottery ::
  "store \<Rightarrow> addr \<Rightarrow> bool \<Rightarrow> real option \<Rightarrow> (nat \<Rightarrow> real)
     \<Rightarrow> (s_error + addr) \<times> store \<times> s_event list" where
  "s_runNBALottery h teams onSelection delay rnd =
     (case readArray h teams of
        None \<Rightarrow> (Inl (Raised EmptyRun), h, [])
      | Some refs \<Rightarrow>
          if refs = [] then (Inl (Raised EmptyRun), h, [])
          else
            let (selections, h1) = alloc h (RefArray []);
                (availableTeams, h2) = alloc h1 (RefArray refs)
            in s_lotteryLoop rnd onSelection (effectiveDelay delay) (length refs) 1
                 availableTeams selections h2 [])"

text \<open>A result record read from the store.\<close>

definition readSelection :: "store \<Rightarrow> addr \<Rightarrow> selection option" where
  "readSelection h a = (case cells h a of Some (SelectionObj s) \<Rightarrow> Some s | _ \<Rightarrow> None)"

text \<open>The allocator's invariant: every cell in use lies below \<open>nextFree\<close>.\<close>

definition wellFormed :: "store \<Rightarrow> bool" where
  "wellFormed h = (\<forall>a. cells h a \<noteq> None \<longrightarrow> a < nextFree h)"

text \<open>An event of the run on the store, with the address replaced by the team it holds.\<close>

fun absEvent :: "store \<Rightarrow> s_event \<Rightarrow> event option" where
  "absEvent h (SWait d) = Some (Wait d)"
| "absEvent h (SOnSelection a dp k) = map_option (\<lambda>t. OnSelection t dp k) (readTeam h a)"

text \<open>The team objects and result records of \<open>h\<close> are still there in \<open>h'\<close>.\<close>

definition keepsObjects :: "store \<Rightarrow> store \<Rightarrow> bool" where
  "keepsObjects h h' =
     ((\<forall>a t. readTeam h a = Some t \<longrightarrow> readTeam h' a = Some t)
      \<and> (\<forall>a s. readSelection h a = Some s \<longrightarrow> readSelection h' a = Some s))"

text \<open>A store with the teams \<open>teamA\<close>, \<open>teamB\<close> at 0 and 1 and the array of both at 2.\<close>

definition exampleStore :: store where
  "exampleStore =
     \<lparr>cells = [0 \<mapsto> TeamObj teamA, 1 \<mapsto> TeamObj teamB, 2 \<mapsto> RefArray [0, 1]], nextFree = 3\<rparr>"

section \<open>Properties of one draw\<close>

declare lotteryLoop.simps [simp del]

lemma calculateTotalCombinations_sum_list:
  "calculateTotalCombinations combos = sum_list combos"
proof -
  have "foldl (\<lambda>sum count. sum + count) a combos = a + sum_list combos" for a :: int
    by (induction combos arbitrary: a) simp_all
  then show ?thesis
    by (simp add: calculateTotalCombinations_def)
qed

lemma walk_Some_positive:
  "walk teams random cumulative = Some t \<Longrightarrow> t \<in> set teams \<and> 0 < weight t"
  by (induction teams arbitrary: cumulative) (auto split: if_splits)

lemma positiveSum_Nil: "positiveSum [] = 0"
  by (simp add: positiveSum_def)

lemma positiveSum_Cons:
  "positiveSum (t # rest) = (if 0 < weight t then weight t else 0) + positiveSum rest"
  by (simp add: positiveSum_def)

lemma positiveSum_nonneg: "0 \<le> positiveSum teams"
  by (induction teams) (simp_all add: positiveSum_Nil positiveSum_Cons)

lemma positiveSum_pos_iff: "0 < positiveSum teams \<longleftrightarrow> (\<exists>t\<in>set teams. 0 < weight t)"
proof (induction teams)
  case Nil
  then show ?case by (simp add: positiveSum_Nil)
next
  case (Cons t rest)
  have "0 \<le> positiveSum rest" by (rule positiveSum_nonneg)
  with Cons show ?case
    by (auto simp: positiveSum_Cons)
qed


lemma positiveSum_nonneg_weights:
  "\<forall>t\<in>set teams. 0 \<le> weight t \<Longrightarrow> positiveSum teams = sum_list (map weight teams)"
  by (induction teams) (auto simp: positiveSum_Nil positiveSum_Cons)





lemma select_mem: "selectWinnerByCombinations teams u = Inr t \<Longrightarrow> t \<in> set teams"
  by (auto simp: selectWinnerByCombinations_def Let_def
      split: if_splits option.splits dest: walk_Some_positive)

lemma select_single:
  "selectWinnerByCombinations [t] u = (if weight t = 0 then Inl ZeroTotal else Inr t)"
  by (simp add: selectWinnerByCombinations_def calculateTotalCombinations_def Let_def)

lemma run_zero_total:
  "teams \<noteq> [] \<Longrightarrow> calculateTotalCombinations (map weight teams) = 0 \<Longrightarrow>
    runNBALottery teams cb delay rnd = (Inl ZeroTotal, [Wait (effectiveDelay delay)])"
  by (simp add: runNBALottery_def selectWinnerByCombinations_def
      lotteryLoop.simps [of _ _ _ _ "Suc 0"] Suc_le_eq)

lemmas example_defs =
  teamA_def teamB_def teamZ_def teamY_def teamE_def constantRandom_def weight_def
  calculateTotalCombinations_def drawRandom_def effectiveDelay_def DEFAULT_DELAY_MS_def
  selectWinnerByCombinations_def runNBALottery_def mkSelection_def positiveSum_def









section \<open>Properties of a run\<close>

lemma callbacks_append: "callbacks (xs @ ys) = callbacks xs @ callbacks ys"
  by (induction xs rule: callbacks.induct) simp_all

lemma run_single:
  assumes "weight t \<noteq> 0" and "userId t \<noteq> []"
  shows "runNBALottery [t] cb delay rnd =
           (Inr [mkSelection t 1 1],
            Wait (effectiveDelay delay) # (if cb then [OnSelection t 1 1] else []))"
proof -
  have "lotteryLoop rnd cb d 1 (Suc (Suc 0)) pool sels tr = (Inr sels, tr)" for d pool sels tr
    by (simp add: lotteryLoop.simps [of _ _ _ _ "Suc (Suc 0)"])
  then show ?thesis
    using assms
    by (simp add: runNBALottery_def select_single lotteryLoop.simps [of _ _ _ _ "Suc 0"])
qed

text \<open>
  C1, as the code has it. A draw from a pool of exactly one entity returns that entity
  when its weight is not 0 and raises \<^verbatim>\<open>Total combinations cannot be zero\<close> when its
  weight is 0. A run on a single entity of weight 0 raises that error before any record
  is made; a run on a single entity of another weight, with an identifier that is not
  empty, returns the one record with pick number 1.
\<close>

theorem single_entity_draw:
  "selectWinnerByCombinations [t] u = (if weight t = 0 then Inl ZeroTotal else Inr t)
   \<and> (weight t = 0 \<longrightarrow>
        runNBALottery [t] cb delay rnd = (Inl ZeroTotal, [Wait (effectiveDelay delay)]))
   \<and> (weight t \<noteq> 0 \<and> userId t \<noteq> [] \<longrightarrow>
        runNBALottery [t] cb delay rnd =
          (Inr [mkSelection t 1 1],
           Wait (effectiveDelay delay) # (if cb then [OnSelection t 1 1] else [])))"
  using run_zero_total [of "[t]" cb delay rnd] run_single [of t cb delay rnd]
  by (simp add: select_single calculateTotalCombinations_def)

theorem single_entity_draw_witness:
  "weight teamZ = 0
   \<and> selectWinnerByCombinations [teamZ] (1 / 2) = Inl ZeroTotal
   \<and> runNBALottery [teamZ] True (Some 0) (constantRandom (1 / 2)) = (Inl ZeroTotal, [Wait 0])
   \<and> weight teamA \<noteq> 0 \<and> userId teamA \<noteq> []
   \<and> selectWinnerByCombinations [teamA] (1 / 2) = Inr teamA
   \<and> runNBALottery [teamA] True (Some 0) (constantRandom (1 / 2)) =
        (Inr [mkSelection teamA 1 1], [Wait 0, OnSelection teamA 1 1])"
proof -
  have z: "weight teamZ = 0" and a: "weight teamA \<noteq> 0" "userId teamA \<noteq> []"
    by (simp_all add: weight_def teamZ_def teamA_def)
  from single_entity_draw [of teamZ "1 / 2" True "Some 0" "constantRandom (1 / 2)"]
    single_entity_draw [of teamA "1 / 2" True "Some 0" "constantRandom (1 / 2)"] z a
  show ?thesis
    by (simp add: effectiveDelay_def)
qed

text \<open>
  C1 as the specification states it does not hold: the single entity of weight 0 is not
  returned, neither by the draw nor by the run.
\<close>

theorem single_zero_weight_counterexample:
  "selectWinnerByCombinations [teamZ] (1 / 2) = Inl ZeroTotal
   \<and> selectWinnerByCombinations [teamZ] (1 / 2) \<noteq> Inr teamZ
   \<and> fst (runNBALottery [teamZ] False (Some 0) (constantRandom (1 / 2))) = Inl ZeroTotal"
  by (simp add: example_defs lotteryLoop.simps)

text \<open>
  C5. A run on no entities raises \<^verbatim>\<open>Cannot run lottery with empty teams array\<close>
  before anything else happens. A run on entities whose weights sum to 0 raises
  \<^verbatim>\<open>Total combinations cannot be zero\<close> at its first draw: after the first timer wait,
  with no record made and no call of the observer.
\<close>

theorem run_fails_before_any_draw:
  "runNBALottery [] cb delay rnd = (Inl EmptyRun, [])
   \<and> (teams \<noteq> [] \<and> calculateTotalCombinations (map weight teams) = 0 \<longrightarrow>
        runNBALottery teams cb delay rnd = (Inl ZeroTotal, [Wait (effectiveDelay delay)])
        \<and> callbacks (snd (runNBALottery teams cb delay rnd)) = [])"
  by (simp add: run_zero_total) (simp add: runNBALottery_def)

theorem run_fails_before_any_draw_witness:
  "[teamZ, teamY] \<noteq> [] \<and> 1 < length [teamZ, teamY]
   \<and> calculateTotalCombinations (map weight [teamZ, teamY]) = 0
   \<and> runNBALottery [teamZ, teamY] True None (constantRandom (1 / 2))
       = (Inl ZeroTotal, [Wait 1500])
   \<and> callbacks (snd (runNBALottery [teamZ, teamY] True None (constantRandom (1 / 2)))) = []"
proof -
  have h: "calculateTotalCombinations (map weight [teamZ, teamY]) = 0"
    by (simp add: calculateTotalCombinations_def weight_def teamZ_def teamY_def)
  from run_fails_before_any_draw [of True None "constantRandom (1 / 2)" "[teamZ, teamY]"] h
  show ?thesis
    by (simp add: effectiveDelay_def DEFAULT_DELAY_MS_def)
qed

text \<open>
  The delay reaches the timer only. Two runs that differ in nothing but the delay give the
  same result, and the same calls of the observer in the same order.
\<close>

lemma loop_delay_independent:
  "callbacks tr1 = callbacks tr2 \<Longrightarrow>
     fst (lotteryLoop rnd cb d1 n p pool sels tr1) = fst (lotteryLoop rnd cb d2 n p pool sels tr2)
   \<and> callbacks (snd (lotteryLoop rnd cb d1 n p pool sels tr1))
     = callbacks (snd (lotteryLoop rnd cb d2 n p pool sels tr2))"
proof (induction rnd cb d1 n p pool sels tr1 arbitrary: tr2 rule: lotteryLoop.induct)
  case (1 rnd cb d1 n p pool sels tr1)
  show ?case
  proof (cases "p \<le> n")
    case False
    then show ?thesis
      using "1.prems" by (simp add: lotteryLoop.simps [of _ _ _ n p])
  next
    case True
    show ?thesis
    proof (cases "selectWinnerByCombinations pool (rnd (p - 1))")
      case (Inl e)
      with True "1.prems" show ?thesis
        by (simp add: lotteryLoop.simps [of _ _ _ n p] callbacks_append)
    next
      case (Inr t)
      show ?thesis
      proof (cases "userId t = []")
        case True
        with Inr \<open>p \<le> n\<close> "1.prems" show ?thesis
          by (simp add: lotteryLoop.simps [of _ _ _ n p] callbacks_append)
      next
        case False
        let ?ev = "\<lambda>d. [Wait d] @ (if cb then [OnSelection t (int n - int p + 1) p] else [])"
        have "callbacks (tr1 @ ?ev d1) = callbacks (tr2 @ ?ev d2)"
          using "1.prems" by (simp add: callbacks_append)
        from "1.IH" [OF True Inr False this] Inr True False show ?thesis
          by (simp add: lotteryLoop.simps [of _ _ _ n p pool])
      qed
    qed
  qed
qed

text \<open>
  C8. For any two delays, two runs on the same entities that read the same sequence of
  random numbers end the same way (the same records in the same order, or the same
  error) and make the same calls of the observer in the same order.
\<close>

theorem delay_has_no_bearing:
  "fst (runNBALottery teams cb d1 rnd) = fst (runNBALottery teams cb d2 rnd)
   \<and> callbacks (snd (runNBALottery teams cb d1 rnd))
     = callbacks (snd (runNBALottery teams cb d2 rnd))"
  using loop_delay_independent [of "[]" "[]"]
  by (simp add: runNBALottery_def)

lemma entity_mkSelection: "entity (mkSelection t p d) = t"
  by (simp add: entity_def mkSelection_def)

lemma fields_mkSelection:
  "pickNumber (mkSelection t p d) = p" "position (mkSelection t p d) = d"
  "userId (mkSelection t p d) = userId t"
  by (simp_all add: mkSelection_def)

lemma filter_distinct_userId:
  "distinct (map userId pool) \<Longrightarrow> t \<in> set pool \<Longrightarrow>
     filter (\<lambda>x. userId x \<noteq> userId t) pool = remove1 t pool"
proof (induction pool)
  case Nil
  then show ?case by simp
next
  case (Cons x rest)
  show ?case
  proof (cases "x = t")
    case True
    with Cons.prems have notin: "userId t \<notin> set (map userId rest)" by simp
    have "\<forall>y\<in>set rest. userId y \<noteq> userId t"
    proof
      fix y assume "y \<in> set rest"
      then have "userId y \<in> set (map userId rest)" by simp
      with notin show "userId y \<noteq> userId t" by auto
    qed
    then have "filter (\<lambda>x. userId x \<noteq> userId t) rest = rest"
      by (simp add: filter_id_conv)
    with True show ?thesis by simp
  next
    case False
    with Cons.prems have "t \<in> set rest" "userId x \<noteq> userId t" by auto
    with Cons False show ?thesis by simp
  qed
qed

lemma select_returns:
  assumes "pool \<noteq> []" and "\<forall>t\<in>set pool. 0 < weight t"
  shows "\<exists>t\<in>set pool. selectWinnerByCombinations pool u = Inr t"
proof -
  have "0 < positiveSum pool"
    using assms by (cases pool) (auto simp: positiveSum_pos_iff)
  moreover have "positiveSum pool = sum_list (map weight pool)"
    using assms(2) by (intro positiveSum_nonneg_weights) (auto intro: less_imp_le)
  ultimately have "calculateTotalCombinations (map weight pool) \<noteq> 0"
    by (simp add: calculateTotalCombinations_sum_list)
  with assms(1) show ?thesis
    by (auto simp: selectWinnerByCombinations_def split: option.splits dest: walk_Some_positive)
qed

text \<open>
  When every entity of the pool has a weight above zero and an identifier of its own that
  is not empty, the loop draws the whole pool: one record for each entity, with the pick
  numbers from the current one to the last.
\<close>

lemma loop_success:
  "length pool = k \<Longrightarrow> p + k = Suc n \<Longrightarrow> distinct (map userId pool) \<Longrightarrow>
   \<forall>t\<in>set pool. userId t \<noteq> [] \<and> 0 < weight t \<Longrightarrow>
   \<exists>new tr'. lotteryLoop rnd cb d n p pool sels tr = (Inr (new @ sels), tr')
      \<and> mset (map entity new) = mset pool
      \<and> map pickNumber new = rev [p..<Suc n]
      \<and> (\<forall>s\<in>set new. position s = int n - int (pickNumber s) + 1)"
proof (induction k arbitrary: p pool sels tr)
  case 0
  then have "pool = []" "\<not> p \<le> n" by simp_all
  then have "lotteryLoop rnd cb d n p pool sels tr = (Inr ([] @ sels), tr)"
    by (simp add: lotteryLoop.simps [of _ _ _ n p])
  moreover have "[p..<Suc n] = []" using \<open>\<not> p \<le> n\<close> by simp
  ultimately show ?case using \<open>pool = []\<close> by (intro exI [of _ "[]"] exI [of _ tr]) simp
next
  case (Suc k)
  then have ne: "pool \<noteq> []" and le: "p \<le> n" by auto
  from select_returns [OF ne, of "rnd (p - 1)"] Suc.prems(4)
  obtain t where t: "t \<in> set pool" "selectWinnerByCombinations pool (rnd (p - 1)) = Inr t"
    by auto
  let ?pool = "filter (\<lambda>x. userId x \<noteq> userId t) pool"
  let ?s = "mkSelection t p (int n - int p + 1)"
  let ?tr = "tr @ [Wait d] @ (if cb then [OnSelection t (int n - int p + 1) p] else [])"
  have rem: "?pool = remove1 t pool"
    using Suc.prems(3) t(1) by (rule filter_distinct_userId)
  have id: "userId t \<noteq> []" using Suc.prems(4) t(1) by simp
  have step: "lotteryLoop rnd cb d n p pool sels tr
        = lotteryLoop rnd cb d n (Suc p) ?pool (?s # sels) ?tr"
    using le t(2) id by (simp add: lotteryLoop.simps [of _ _ _ n p pool])
  have "length ?pool = k" using Suc.prems(1) t(1) by (simp add: rem length_remove1)
  moreover have "Suc p + k = Suc n" using Suc.prems(2) by simp
  moreover have "distinct (map userId ?pool)"
    using Suc.prems(3) by (simp add: distinct_map_filter)
  moreover have "\<forall>x\<in>set ?pool. userId x \<noteq> [] \<and> 0 < weight x"
    using Suc.prems(4) by simp
  ultimately obtain new tr' where new:
    "lotteryLoop rnd cb d n (Suc p) ?pool (?s # sels) ?tr = (Inr (new @ ?s # sels), tr')"
    "mset (map entity new) = mset ?pool"
    "map pickNumber new = rev [Suc p..<Suc n]"
    "\<forall>s\<in>set new. position s = int n - int (pickNumber s) + 1"
    using Suc.IH [of ?pool "Suc p" "?s # sels" ?tr] by blast
  have "mset (map entity (new @ [?s])) = mset pool"
    using new(2) t(1) by (simp add: rem entity_mkSelection)
  moreover have "map pickNumber (new @ [?s]) = rev [p..<Suc n]"
  proof -
    have "[p..<Suc n] = p # [Suc p..<Suc n]"
      using le by (intro upt_conv_Cons) simp
    with new(3) show ?thesis
      by (simp add: fields_mkSelection del: upt_Suc)
  qed
  moreover have "\<forall>s\<in>set (new @ [?s]). position s = int n - int (pickNumber s) + 1"
    using new(4) by (simp add: fields_mkSelection)
  moreover have "lotteryLoop rnd cb d n p pool sels tr = (Inr ((new @ [?s]) @ sels), tr')"
    using step new(1) by simp
  ultimately show ?case by blast
qed

text \<open>
  Whatever the outcome, the observer is called with consecutive pick numbers, and after a
  run that returns its calls are the records read from the last one to the first.
\<close>

lemma loop_callbacks:
  "lotteryLoop rnd True d n p pool sels tr = (r, tr') \<Longrightarrow>
     \<exists>cbs. callbacks tr' = callbacks tr @ cbs
       \<and> map (\<lambda>(t, dp, k). k) cbs = [p..<p + length cbs]
       \<and> (\<forall>(t, dp, k)\<in>set cbs. dp = int n - int k + 1)
       \<and> (\<forall>out. r = Inr out \<longrightarrow>
            (\<exists>new. out = new @ sels \<and> length new = Suc n - p
               \<and> cbs = map (\<lambda>s. (entity s, position s, pickNumber s)) (rev new)))"
proof (induction rnd True d n p pool sels tr rule: lotteryLoop.induct)
  case (1 rnd d n p pool sels tr)
  show ?case
  proof (cases "p \<le> n")
    case False
    with "1.prems" have "r = Inr sels" "tr' = tr"
      by (simp_all add: lotteryLoop.simps [of _ _ _ n p])
    with False show ?thesis by (intro exI [of _ "[]"]) simp
  next
    case True
    show ?thesis
    proof (cases "selectWinnerByCombinations pool (rnd (p - 1))")
      case (Inl e)
      with True "1.prems" have "r = Inl e" "tr' = tr @ [Wait d]"
        by (simp_all add: lotteryLoop.simps [of _ _ _ n p])
      then show ?thesis by (intro exI [of _ "[]"]) (simp add: callbacks_append)
    next
      case (Inr t)
      show ?thesis
      proof (cases "userId t = []")
        case True
        with Inr \<open>p \<le> n\<close> "1.prems" have "r = Inl InvalidTeam" "tr' = tr @ [Wait d]"
          by (simp_all add: lotteryLoop.simps [of _ _ _ n p])
        then show ?thesis by (intro exI [of _ "[]"]) (simp add: callbacks_append)
      next
        case False
        let ?dp = "int n - int p + 1"
        let ?s = "mkSelection t p ?dp"
        have "lotteryLoop rnd True d n (Suc p) (filter (\<lambda>x. userId x \<noteq> userId t) pool)
                (?s # sels) (tr @ [Wait d] @ (if True then [OnSelection t ?dp p] else []))
              = (r, tr')"
          using "1.prems" True Inr False by (simp add: lotteryLoop.simps [of _ _ _ n p pool])
        from "1.hyps" [OF True Inr False this]
        obtain cbs where cbs:
          "callbacks tr' = callbacks (tr @ [Wait d] @ [OnSelection t ?dp p]) @ cbs"
          "map (\<lambda>(t, dp, k). k) cbs = [Suc p..<Suc p + length cbs]"
          "\<forall>(t, dp, k)\<in>set cbs. dp = int n - int k + 1"
          "\<forall>out. r = Inr out \<longrightarrow>
            (\<exists>new. out = new @ ?s # sels \<and> length new = Suc n - Suc p
               \<and> cbs = map (\<lambda>s. (entity s, position s, pickNumber s)) (rev new))"
          by auto
        let ?cbs = "(t, ?dp, p) # cbs"
        have a: "callbacks tr' = callbacks tr @ ?cbs"
          using cbs(1) by (simp add: callbacks_append)
        have b: "map (\<lambda>(t, dp, k). k) ?cbs = [p..<p + length ?cbs]"
        proof -
          have "[p..<p + length ?cbs] = p # [Suc p..<p + length ?cbs]"
            by (intro upt_conv_Cons) simp
          with cbs(2) show ?thesis
            by (simp del: upt_Suc)
        qed
        have c: "\<forall>(t, dp, k)\<in>set ?cbs. dp = int n - int k + 1"
          using cbs(3) by simp
        have d: "\<exists>new. out = new @ sels \<and> length new = Suc n - p
               \<and> ?cbs = map (\<lambda>s. (entity s, position s, pickNumber s)) (rev new)"
          if "r = Inr out" for out
        proof -
          from cbs(4) that obtain new where new: "out = new @ ?s # sels"
            "length new = Suc n - Suc p"
            "cbs = map (\<lambda>s. (entity s, position s, pickNumber s)) (rev new)"
            by blast
          then show ?thesis
            using True
            by (intro exI [of _ "new @ [?s]"]) (simp add: entity_mkSelection fields_mkSelection)
        qed
        from a b c d show ?thesis by blast
      qed
    qed
  qed
qed

text \<open>
  The events of the loop, whatever the outcome: every draw that selects an entity is
  followed by one call of the observer, and a draw that raises ends the run after its
  timer wait. Each call carries the entity its draw selected from the pool that the
  earlier draws left.
\<close>

lemma poolAfter_Nil: "poolAfter pool [] = pool"
  by (simp add: poolAfter_def)

lemma poolAfter_Cons:
  "poolAfter pool ((t, dp, k) # cbs) = poolAfter (filter (\<lambda>x. userId x \<noteq> userId t) pool) cbs"
  by (simp add: poolAfter_def conj_commute)

lemma loop_trace:
  "lotteryLoop rnd True d n p pool sels tr = (r, tr') \<Longrightarrow> 1 \<le> p \<Longrightarrow>
     \<exists>cbs. tr' = tr @ reveal d cbs @ (case r of Inl e \<Rightarrow> [Wait d] | Inr out \<Rightarrow> [])
       \<and> (\<forall>i<length cbs.
             selectWinnerByCombinations (poolAfter pool (take i cbs)) (rnd (p - 1 + i))
               = Inr (fst (cbs ! i)))
       \<and> (\<forall>e. r = Inl e \<longrightarrow> p + length cbs \<le> n
             \<and> (selectWinnerByCombinations (poolAfter pool cbs) (rnd (p - 1 + length cbs)) = Inl e
                \<or> (\<exists>t. selectWinnerByCombinations (poolAfter pool cbs) (rnd (p - 1 + length cbs)) = Inr t
                      \<and> userId t = [] \<and> e = InvalidTeam)))"
proof (induction rnd True d n p pool sels tr rule: lotteryLoop.induct)
  case (1 rnd d n p pool sels tr)
  show ?case
  proof (cases "p \<le> n")
    case False
    with "1.prems" have "r = Inr sels" "tr' = tr"
      by (simp_all add: lotteryLoop.simps [of _ _ _ n p])
    then show ?thesis by (intro exI [of _ "[]"]) simp
  next
    case True
    show ?thesis
    proof (cases "selectWinnerByCombinations pool (rnd (p - 1))")
      case (Inl e)
      with True "1.prems" have "r = Inl e" "tr' = tr @ [Wait d]"
        by (simp_all add: lotteryLoop.simps [of _ _ _ n p])
      with Inl True show ?thesis by (intro exI [of _ "[]"]) (simp add: poolAfter_Nil)
    next
      case (Inr t)
      show ?thesis
      proof (cases "userId t = []")
        case empty: True
        with Inr \<open>p \<le> n\<close> "1.prems" have "r = Inl InvalidTeam" "tr' = tr @ [Wait d]"
          by (simp_all add: lotteryLoop.simps [of _ _ _ n p])
        with Inr True empty show ?thesis by (intro exI [of _ "[]"]) (simp add: poolAfter_Nil)
      next
        case False
        let ?dp = "int n - int p + 1"
        let ?s = "mkSelection t p ?dp"
        let ?pool = "filter (\<lambda>x. userId x \<noteq> userId t) pool"
        have "lotteryLoop rnd True d n (Suc p) ?pool
                (?s # sels) (tr @ [Wait d] @ (if True then [OnSelection t ?dp p] else []))
              = (r, tr')"
          using "1.prems" True Inr False by (simp add: lotteryLoop.simps [of _ _ _ n p pool])
        from "1.hyps" [OF True Inr False this]
        obtain cbs where cbs:
          "tr' = (tr @ [Wait d] @ [OnSelection t ?dp p]) @ reveal d cbs
                   @ (case r of Inl e \<Rightarrow> [Wait d] | Inr out \<Rightarrow> [])"
          "\<forall>i<length cbs.
             selectWinnerByCombinations (poolAfter ?pool (take i cbs)) (rnd (Suc p - 1 + i))
               = Inr (fst (cbs ! i))"
          "\<forall>e. r = Inl e \<longrightarrow> Suc p + length cbs \<le> n
             \<and> (selectWinnerByCombinations (poolAfter ?pool cbs) (rnd (Suc p - 1 + length cbs)) = Inl e
                \<or> (\<exists>t. selectWinnerByCombinations (poolAfter ?pool cbs) (rnd (Suc p - 1 + length cbs)) = Inr t
                      \<and> userId t = [] \<and> e = InvalidTeam))"
          by auto
        let ?cbs = "(t, ?dp, p) # cbs"
        have idx: "Suc p - 1 + i = p - 1 + Suc i" for i
          using "1.prems"(2) by simp
        have a: "tr' = tr @ reveal d ?cbs @ (case r of Inl e \<Rightarrow> [Wait d] | Inr out \<Rightarrow> [])"
          using cbs(1) by simp
        have b: "selectWinnerByCombinations (poolAfter pool (take i ?cbs)) (rnd (p - 1 + i))
               = Inr (fst (?cbs ! i))" if "i < length ?cbs" for i
        proof (cases i)
          case 0
          with Inr show ?thesis by (simp add: poolAfter_Nil)
        next
          case (Suc j)
          with that cbs(2) have "selectWinnerByCombinations (poolAfter ?pool (take j cbs)) (rnd (Suc p - 1 + j))
               = Inr (fst (cbs ! j))" by simp
          then show ?thesis
            unfolding Suc idx by (simp add: poolAfter_Cons)
        qed
        have c: "p + length ?cbs \<le> n
             \<and> (selectWinnerByCombinations (poolAfter pool ?cbs) (rnd (p - 1 + length ?cbs)) = Inl e
                \<or> (\<exists>t. selectWinnerByCombinations (poolAfter pool ?cbs) (rnd (p - 1 + length ?cbs)) = Inr t
                      \<and> userId t = [] \<and> e = InvalidTeam))" if "r = Inl e" for e
          using cbs(3) that unfolding idx by (simp add: poolAfter_Cons)
        from a b c show ?thesis by blast
      qed
    qed
  qed
qed

lemma callbacks_reveal: "callbacks (reveal d cbs) = cbs"
  by (induction d cbs rule: reveal.induct) simp_all

text \<open>
  C3, as the code has it. For \<open>N \<ge> 1\<close> entities whose identifiers are not empty and
  differ from each other and whose weights are all above zero, a run returns \<open>N\<close>
  records; the entities of the records are the input entities, each one once (and so
  are their identifiers); the pick numbers are \<open>N, N - 1, \<dots>, 1\<close> in this order, the worst
  pick first and the winner last; and every record has position \<open>N - pickNumber + 1\<close>.
\<close>

theorem run_returns_full_ranking:
  assumes "teams \<noteq> []"
    and "distinct (map userId teams)"
    and "\<forall>t\<in>set teams. userId t \<noteq> [] \<and> 0 < weight t"
  shows "\<exists>sels tr. runNBALottery teams cb delay rnd = (Inr sels, tr)
      \<and> length sels = length teams
      \<and> mset (map entity sels) = mset teams
      \<and> mset (map userId sels) = mset (map userId teams)
      \<and> map pickNumber sels = rev [1..<Suc (length teams)]
      \<and> (\<forall>s\<in>set sels. position s = int (length teams) - int (pickNumber s) + 1)"
proof -
  from loop_success [OF refl _ assms(2,3), of 1 "length teams" rnd cb "effectiveDelay delay" "[]" "[]"]
  obtain sels tr where run: "runNBALottery teams cb delay rnd = (Inr sels, tr)"
    and ent: "mset (map entity sels) = mset teams"
    and picks: "map pickNumber sels = rev [1..<Suc (length teams)]"
    and pos: "\<forall>s\<in>set sels. position s = int (length teams) - int (pickNumber s) + 1"
    using assms(1) by (auto simp: runNBALottery_def)
  have "length (map pickNumber sels) = length (rev [1..<Suc (length teams)])"
    by (simp only: picks)
  also have "\<dots> = length teams"
    by (simp del: upt_Suc)
  finally have "length (map pickNumber sels) = length teams" .
  then have len: "length sels = length teams" by simp
  have "map userId sels = map userId (map entity sels)"
    by (simp add: entity_def)
  then have "mset (map userId sels) = image_mset userId (mset (map entity sels))"
    by (simp only: mset_map)
  also have "\<dots> = image_mset userId (mset teams)"
    by (simp only: ent)
  finally have ids: "mset (map userId sels) = mset (map userId teams)"
    by simp
  from run len ent ids picks pos show ?thesis by blast
qed

theorem run_returns_full_ranking_witness:
  "[teamA, teamB] \<noteq> [] \<and> distinct (map userId [teamA, teamB])
   \<and> userId teamA \<noteq> [] \<and> 0 < weight teamA \<and> userId teamB \<noteq> [] \<and> 0 < weight teamB
   \<and> (\<exists>sels tr. runNBALottery [teamA, teamB] True (Some 0) (constantRandom (1 / 2)) = (Inr sels, tr)
      \<and> length sels = length [teamA, teamB]
      \<and> mset (map entity sels) = mset [teamA, teamB]
      \<and> mset (map userId sels) = mset (map userId [teamA, teamB])
      \<and> map pickNumber sels = rev [1..<Suc (length [teamA, teamB])]
      \<and> (\<forall>s\<in>set sels. position s = int (length [teamA, teamB]) - int (pickNumber s) + 1))"
proof -
  have h1: "[teamA, teamB] \<noteq> []" by simp
  have h2: "distinct (map userId [teamA, teamB])" by (simp add: teamA_def teamB_def)
  have h3: "\<forall>t\<in>set [teamA, teamB]. userId t \<noteq> [] \<and> 0 < weight t"
    by (simp add: teamA_def teamB_def weight_def)
  from run_returns_full_ranking [OF h1 h2 h3, of True "Some 0" "constantRandom (1 / 2)"] h2 h3
  show ?thesis by simp
qed

text \<open>
  C3 as the specification states it does not hold on an input with identifiers of their
  own and a total weight above zero in which one entity has weight 0: the run raises at
  its last draw. Nor does it hold for an entity whose identifier is the empty string.
\<close>

theorem zero_weight_entity_counterexample:
  "[teamA, teamZ] \<noteq> [] \<and> distinct (map userId [teamA, teamZ])
   \<and> 0 < calculateTotalCombinations (map weight [teamA, teamZ])
   \<and> runNBALottery [teamA, teamZ] True (Some 0) (constantRandom (1 / 2))
       = (Inl ZeroTotal, [Wait 0, OnSelection teamA 2 1, Wait 0])
   \<and> 0 < calculateTotalCombinations (map weight [teamE])
   \<and> runNBALottery [teamE] True (Some 0) (constantRandom (1 / 2)) = (Inl InvalidTeam, [Wait 0])"
  by (simp add: example_defs lotteryLoop.simps)

text \<open>
  C6. What a run with an observer does, whether it returns or raises. Its events are, for
  each draw that selected an entity, the timer wait and then one call of the observer,
  and after them the timer wait of the draw that raised, if one did: the observer is
  called once for each draw that selects, before the next draw starts, and never
  otherwise. The pick numbers of the calls are \<open>1, 2, \<dots>\<close> with none left out. The first
  argument of call \<open>i + 1\<close> is the entity that draw \<open>i + 1\<close> selected from the pool left
  by the earlier draws, with the value \<open>i\<close> of \<^verbatim>\<open>Math.random()\<close>. The second argument is
  the position \<open>N - pickNumber + 1\<close> and the third is the pick number, where the claim
  and the comment above the function, \<^verbatim>\<open>(team, pickNumber, displayPosition)\<close>, have the
  pick number second. After a run that returns there are \<open>N\<close> calls, the returned records
  read from the winner to the worst pick; after a run that raises in a draw there are
  fewer.
\<close>

theorem observer_calls:
  assumes "runNBALottery teams True delay rnd = (r, tr)"
  shows "tr = reveal (effectiveDelay delay) (callbacks tr)
              @ (case r of Inl e \<Rightarrow> if e = EmptyRun then [] else [Wait (effectiveDelay delay)]
                 | Inr sels \<Rightarrow> [])
     \<and> map (\<lambda>(t, dp, k). k) (callbacks tr) = [1..<Suc (length (callbacks tr))]
     \<and> (\<forall>(t, dp, k)\<in>set (callbacks tr). dp = int (length teams) - int k + 1)
     \<and> (\<forall>i<length (callbacks tr).
           selectWinnerByCombinations (poolAfter teams (take i (callbacks tr))) (rnd i)
             = Inr (fst (callbacks tr ! i)))
     \<and> (\<forall>sels. r = Inr sels \<longrightarrow>
          callbacks tr = map (\<lambda>s. (entity s, position s, pickNumber s)) (rev sels)
          \<and> length (callbacks tr) = length teams)
     \<and> (\<forall>e. r = Inl e \<longrightarrow> e \<noteq> EmptyRun \<longrightarrow> length (callbacks tr) < length teams)"
proof (cases "teams = []")
  case True
  with assms show ?thesis by (auto simp: runNBALottery_def)
next
  case False
  let ?d = "effectiveDelay delay"
  from False assms have loop: "lotteryLoop rnd True ?d (length teams) 1 teams [] [] = (r, tr)"
    by (simp add: runNBALottery_def)
  from loop_callbacks [OF loop]
  obtain cbs where cbs: "callbacks tr = cbs"
    "map (\<lambda>(t, dp, k). k) cbs = [1..<1 + length cbs]"
    "\<forall>(t, dp, k)\<in>set cbs. dp = int (length teams) - int k + 1"
    "\<forall>out. r = Inr out \<longrightarrow>
       (\<exists>new. out = new @ [] \<and> length new = Suc (length teams) - 1
          \<and> cbs = map (\<lambda>s. (entity s, position s, pickNumber s)) (rev new))"
    by auto
  from loop_trace [OF loop]
  obtain cbs' where shape:
    "tr = [] @ reveal ?d cbs' @ (case r of Inl e \<Rightarrow> [Wait ?d] | Inr out \<Rightarrow> [])"
    and sel: "\<forall>i<length cbs'.
             selectWinnerByCombinations (poolAfter teams (take i cbs')) (rnd (1 - 1 + i))
               = Inr (fst (cbs' ! i))"
    and err: "\<forall>e. r = Inl e \<longrightarrow> 1 + length cbs' \<le> length teams
             \<and> (selectWinnerByCombinations (poolAfter teams cbs') (rnd (1 - 1 + length cbs')) = Inl e
                \<or> (\<exists>t. selectWinnerByCombinations (poolAfter teams cbs') (rnd (1 - 1 + length cbs')) = Inr t
                      \<and> userId t = [] \<and> e = InvalidTeam))"
    by auto
  have "callbacks tr = cbs'"
    by (subst shape) (simp add: callbacks_append callbacks_reveal split: sum.split)
  with cbs(1) have same: "cbs' = callbacks tr" "cbs = callbacks tr" by simp_all
  have notEmptyRun: "e \<noteq> EmptyRun" if "r = Inl e" for e
    using err that
    by (auto simp: selectWinnerByCombinations_def Let_def split: if_splits option.splits)
  have 1: "tr = reveal ?d (callbacks tr)
              @ (case r of Inl e \<Rightarrow> if e = EmptyRun then [] else [Wait ?d] | Inr sels \<Rightarrow> [])"
    using shape notEmptyRun unfolding same by (cases r) simp_all
  have 2: "map (\<lambda>(t, dp, k). k) (callbacks tr) = [1..<Suc (length (callbacks tr))]"
    using cbs(2) unfolding same by (simp del: upt_Suc)
  have 3: "\<forall>(t, dp, k)\<in>set (callbacks tr). dp = int (length teams) - int k + 1"
    using cbs(3) unfolding same .
  have 4: "\<forall>i<length (callbacks tr).
           selectWinnerByCombinations (poolAfter teams (take i (callbacks tr))) (rnd i)
             = Inr (fst (callbacks tr ! i))"
    using sel unfolding same by simp
  have 5: "callbacks tr = map (\<lambda>s. (entity s, position s, pickNumber s)) (rev sels)
          \<and> length (callbacks tr) = length teams" if "r = Inr sels" for sels
    using cbs(4) that unfolding same by auto
  have 6: "length (callbacks tr) < length teams" if "r = Inl e" for e
    using err that unfolding same by auto
  from 1 2 3 4 5 6 show ?thesis by blast
qed

theorem observer_calls_witness:
  "runNBALottery [teamA, teamZ] True (Some 0) (constantRandom (1 / 2))
     = (Inl ZeroTotal, [Wait 0, OnSelection teamA 2 1, Wait 0])
   \<and> [Wait 0, OnSelection teamA 2 1, Wait 0]
       = reveal (effectiveDelay (Some 0)) (callbacks [Wait 0, OnSelection teamA 2 1, Wait 0])
           @ (case (Inl ZeroTotal :: error + selection list) of
                Inl e \<Rightarrow> if e = EmptyRun then [] else [Wait (effectiveDelay (Some 0))]
              | Inr sels \<Rightarrow> [])
   \<and> map (\<lambda>(t, dp, k). k) (callbacks [Wait 0, OnSelection teamA 2 1, Wait 0])
       = [1..<Suc (length (callbacks [Wait 0, OnSelection teamA 2 1, Wait 0]))]
   \<and> callbacks [Wait 0, OnSelection teamA 2 1, Wait 0] = [(teamA, 2, 1)]
   \<and> selectWinnerByCombinations (poolAfter [teamA, teamZ] []) (constantRandom (1 / 2) 0) = Inr teamA
   \<and> length (callbacks [Wait 0, OnSelection teamA 2 1, Wait 0]) < length [teamA, teamZ]"
proof -
  have h: "runNBALottery [teamA, teamZ] True (Some 0) (constantRandom (1 / 2))
     = (Inl ZeroTotal, [Wait 0, OnSelection teamA 2 1, Wait 0])"
    by (simp add: example_defs lotteryLoop.simps)
  note inst = observer_calls [OF h]
  have cb: "callbacks [Wait 0, OnSelection teamA 2 1, Wait 0] = [(teamA, 2, 1)]" by simp
  from inst have "selectWinnerByCombinations
      (poolAfter [teamA, teamZ] (take 0 (callbacks [Wait 0, OnSelection teamA 2 1, Wait 0])))
      (constantRandom (1 / 2) 0) = Inr (fst (callbacks [Wait 0, OnSelection teamA 2 1, Wait 0] ! 0))"
    by simp
  then have s: "selectWinnerByCombinations (poolAfter [teamA, teamZ] []) (constantRandom (1 / 2) 0)
      = Inr teamA" by simp
  from inst have l: "length (callbacks [Wait 0, OnSelection teamA 2 1, Wait 0]) < length [teamA, teamZ]"
    by simp
  from inst have m: "map (\<lambda>(t, dp, k). k) (callbacks [Wait 0, OnSelection teamA 2 1, Wait 0])
       = [1..<Suc (length (callbacks [Wait 0, OnSelection teamA 2 1, Wait 0]))]" by blast
  from inst have sh: "[Wait 0, OnSelection teamA 2 1, Wait 0]
       = reveal (effectiveDelay (Some 0)) (callbacks [Wait 0, OnSelection teamA 2 1, Wait 0])
           @ (case (Inl ZeroTotal :: error + selection list) of
                Inl e \<Rightarrow> if e = EmptyRun then [] else [Wait (effectiveDelay (Some 0))]
              | Inr sels \<Rightarrow> [])" by blast
  from h sh m cb s l show ?thesis by (simp only: simp_thms)
qed

text \<open>
  C6, the call that differs from the documented signature: on the teams \<open>a\<close> (10) and
  \<open>b\<close> (5) with \<^verbatim>\<open>Math.random()\<close> at 0.5 the first call has the position 2 as its second
  argument, not the pick number 1, and the second call has 1 where the pick number is 2.
\<close>

theorem observer_second_argument_counterexample:
  "callbacks (snd (runNBALottery [teamA, teamB] True (Some 0) (constantRandom (1 / 2))))
     = [(teamA, 2, 1), (teamB, 1, 2)]
   \<and> (2::int) \<noteq> int 1"
  by (simp add: example_defs lotteryLoop.simps)

section \<open>Properties of the generators\<close>
























section \<open>Properties of the sampler on the store\<close>

declare s_lotteryLoop.simps [simp del]

lemma alloc_frame:
  assumes "alloc h c = (a, h')"
  shows "a = nextFree h" and "nextFree h' = Suc (nextFree h)"
    and "x < nextFree h \<Longrightarrow> cells h' x = cells h x"
    and "cells h' a = Some c"
  using assms by (auto simp: alloc_def)

lemma unshift_frame:
  "nextFree (unshift h a v) = nextFree h"
  "x \<noteq> a \<Longrightarrow> cells (unshift h a v) x = cells h x"
  by (auto simp: unshift_def split: option.splits cell.splits)

lemma s_select_frame:
  assumes "s_selectWinnerByCombinations h teams u = (r, h')"
  shows "nextFree h \<le> nextFree h'" and "x < nextFree h \<Longrightarrow> cells h' x = cells h x"
  using assms
  by (auto simp: s_selectWinnerByCombinations_def alloc_def Let_def
      split: option.splits if_splits)

lemma s_loop_frame:
  "s_lotteryLoop rnd cb d n p av sels h tr = (r, h', tr') \<Longrightarrow>
     n0 \<le> nextFree h \<Longrightarrow> n0 \<le> sels \<Longrightarrow> x < n0 \<Longrightarrow> cells h' x = cells h x"
proof (induction "Suc n - p" arbitrary: p av h tr)
  case 0
  then have "\<not> p \<le> n" by simp
  with "0.prems"(1) have "h' = h"
    by (simp add: s_lotteryLoop.simps [of _ _ _ n p])
  then show ?case by simp
next
  case (Suc k)
  then have le: "p \<le> n" by simp
  obtain r1 h1 where sel: "s_selectWinnerByCombinations h av (rnd (p - 1)) = (r1, h1)"
    by (cases "s_selectWinnerByCombinations h av (rnd (p - 1))")
  have h1: "nextFree h \<le> nextFree h1" "cells h1 x = cells h x"
    using s_select_frame [OF sel] Suc.prems(2,4) by simp_all
  show ?case
  proof (cases r1)
    case (Inl e)
    with Suc.prems(1) le sel have "h' = h1"
      by (simp add: s_lotteryLoop.simps [of _ _ _ n p])
    with h1 show ?thesis by simp
  next
    case (Inr selected)
    show ?thesis
    proof (cases "readTeam h1 selected")
      case None
      with Inr Suc.prems(1) le sel have "h' = h1"
        by (simp add: s_lotteryLoop.simps [of _ _ _ n p])
      with h1 show ?thesis by simp
    next
      case (Some st)
      show ?thesis
      proof (cases "userId st = []")
        case True
        with Some Inr Suc.prems(1) le sel have "h' = h1"
          by (simp add: s_lotteryLoop.simps [of _ _ _ n p])
        with h1 show ?thesis by simp
      next
        case False
        let ?refs = "case readArray h1 av of Some rs \<Rightarrow> rs | None \<Rightarrow> []"
        let ?dp = "int n - int p + 1"
        obtain av' h2 where a2: "alloc h1 (RefArray
              (filter (\<lambda>a. map_option userId (readTeam h1 a) \<noteq> Some (userId st)) ?refs)) = (av', h2)"
          by (cases "alloc h1 (RefArray
              (filter (\<lambda>a. map_option userId (readTeam h1 a) \<noteq> Some (userId st)) ?refs))")
        obtain s h3 where a3: "alloc h2 (SelectionObj (mkSelection st p ?dp)) = (s, h3)"
          by (cases "alloc h2 (SelectionObj (mkSelection st p ?dp))")
        let ?h4 = "unshift h3 sels s"
        let ?tr = "tr @ [SWait d] @ (if cb then [SOnSelection selected ?dp p] else [])"
        have rec: "s_lotteryLoop rnd cb d n (Suc p) av' sels ?h4 ?tr = (r, h', tr')"
          using Suc.prems(1) le sel Inr Some False a2 a3
          by (simp add: s_lotteryLoop.simps [of _ _ _ n p av])
        have n2: "nextFree h2 = Suc (nextFree h1)" and c2: "cells h2 x = cells h1 x"
          using alloc_frame(2,3) [OF a2] h1(1) Suc.prems(2,4) by simp_all
        have n3: "nextFree h3 = Suc (nextFree h2)" and c3: "cells h3 x = cells h2 x"
          using alloc_frame(2,3) [OF a3] n2 h1(1) Suc.prems(2,4) by simp_all
        have n4: "n0 \<le> nextFree ?h4"
          using n3 n2 h1(1) Suc.prems(2) by (simp add: unshift_frame)
        have c4: "cells ?h4 x = cells h3 x"
          using Suc.prems(3,4) by (simp add: unshift_frame)
        have "k = Suc n - Suc p" using Suc.hyps(2) by simp
        from Suc.hyps(1) [OF this rec n4 Suc.prems(3,4)] c4 c3 c2 h1(2)
        show ?thesis by simp
      qed
    qed
  qed
qed

lemma s_run_frame:
  assumes "s_runNBALottery h teams cb delay rnd = (r, h', tr)" and "x < nextFree h"
  shows "cells h' x = cells h x"
proof (cases "readArray h teams")
  case None
  with assms(1) show ?thesis by (simp add: s_runNBALottery_def)
next
  case (Some refs)
  show ?thesis
  proof (cases "refs = []")
    case True
    with Some assms(1) show ?thesis by (simp add: s_runNBALottery_def)
  next
    case False
    obtain sels h1 where a1: "alloc h (RefArray []) = (sels, h1)"
      by (cases "alloc h (RefArray [])")
    obtain av h2 where a2: "alloc h1 (RefArray refs) = (av, h2)"
      by (cases "alloc h1 (RefArray refs)")
    have loop: "s_lotteryLoop rnd cb (effectiveDelay delay) (length refs) 1 av sels h2 [] = (r, h', tr)"
      using assms(1) Some False a1 a2 by (simp add: s_runNBALottery_def)
    have sels: "sels = nextFree h" and n1: "nextFree h1 = Suc (nextFree h)"
      and c1: "cells h1 x = cells h x"
      using alloc_frame [OF a1] assms(2) by simp_all
    have n2: "nextFree h2 = Suc (nextFree h1)" and c2: "cells h2 x = cells h1 x"
      using alloc_frame(2,3) [OF a2] n1 assms(2) by simp_all
    have "cells h' x = cells h2 x"
      using s_loop_frame [OF loop, of "nextFree h" x] sels n1 n2 assms(2) by simp
    with c1 c2 show ?thesis by simp
  qed
qed

text \<open>
  C9. Every cell of the store that exists when \<^verbatim>\<open>runNBALottery\<close> or
  \<^verbatim>\<open>selectWinnerByCombinations\<close> is called (every address below \<open>nextFree\<close>) holds the
  same value after the call: the calls write to cells they have made themselves, and to
  no other. In a well-formed store these are all the cells in use, the array of teams the
  caller passes and every team object in it among them.
\<close>

theorem caller_input_unchanged:
  assumes "s_runNBALottery h teams cb delay rnd = (r, h', tr)"
    and "s_selectWinnerByCombinations h teams u = (r1, h1)"
  shows "(\<forall>x<nextFree h. cells h' x = cells h x \<and> cells h1 x = cells h x)
       \<and> (wellFormed h \<longrightarrow>
            (\<forall>x. cells h x \<noteq> None \<longrightarrow> cells h' x = cells h x \<and> cells h1 x = cells h x))"
  using s_run_frame [OF assms(1)] s_select_frame(2) [OF assms(2)]
  by (simp add: wellFormed_def)

theorem caller_input_unchanged_witness:
  "fst (s_runNBALottery exampleStore 2 True (Some 0) (constantRandom (1 / 2))) = Inr 3
   \<and> readArray (fst (snd (s_runNBALottery exampleStore 2 True (Some 0) (constantRandom (1 / 2))))) 3
       = Some [10, 7]
   \<and> fst (s_selectWinnerByCombinations exampleStore 2 (1 / 2)) = Inr 0
   \<and> nextFree exampleStore = 3 \<and> wellFormed exampleStore
   \<and> cells (fst (snd (s_runNBALottery exampleStore 2 True (Some 0) (constantRandom (1 / 2))))) 2
       = Some (RefArray [0, 1])
   \<and> cells (fst (snd (s_runNBALottery exampleStore 2 True (Some 0) (constantRandom (1 / 2))))) 1
       = Some (TeamObj teamB)
   \<and> cells (fst (snd (s_runNBALottery exampleStore 2 True (Some 0) (constantRandom (1 / 2))))) 0
       = Some (TeamObj teamA)
   \<and> cells (snd (s_selectWinnerByCombinations exampleStore 2 (1 / 2))) 2 = Some (RefArray [0, 1])
   \<and> cells (snd (s_selectWinnerByCombinations exampleStore 2 (1 / 2))) 1 = Some (TeamObj teamB)
   \<and> cells (snd (s_selectWinnerByCombinations exampleStore 2 (1 / 2))) 0 = Some (TeamObj teamA)"
proof -
  let ?run = "s_runNBALottery exampleStore 2 True (Some 0) (constantRandom (1 / 2))"
  let ?sel = "s_selectWinnerByCombinations exampleStore 2 (1 / 2)"
  have h1: "?run = (fst ?run, fst (snd ?run), snd (snd ?run))" by simp
  have h2: "?sel = (fst ?sel, snd ?sel)" by simp
  have r: "fst ?run = Inr 3" by code_simp
  have a: "readArray (fst (snd ?run)) 3 = Some [10, 7]" by code_simp
  have s: "fst ?sel = Inr 0" by code_simp
  have n: "nextFree exampleStore = 3" by (simp add: exampleStore_def)
  have w: "wellFormed exampleStore" by (simp add: wellFormed_def exampleStore_def)
  from caller_input_unchanged [OF h1 h2]
  have "\<forall>x<3. cells (fst (snd ?run)) x = cells exampleStore x
            \<and> cells (snd ?sel) x = cells exampleStore x"
    by (simp only: n) blast
  then have "cells (fst (snd ?run)) 2 = cells exampleStore 2"
    "cells (fst (snd ?run)) 1 = cells exampleStore 1"
    "cells (fst (snd ?run)) 0 = cells exampleStore 0"
    "cells (snd ?sel) 2 = cells exampleStore 2"
    "cells (snd ?sel) 1 = cells exampleStore 1"
    "cells (snd ?sel) 0 = cells exampleStore 0"
    by simp_all
  with r a s n w show ?thesis
    by (simp add: exampleStore_def)
qed

subsection \<open>The run on the store against the run on values\<close>

lemma those_map_iff:
  "those (map f xs) = Some ys \<longleftrightarrow> list_all2 (\<lambda>x y. f x = Some y) xs ys"
proof (induction xs arbitrary: ys)
  case Nil
  then show ?case by auto
next
  case (Cons x xs)
  show ?case
  proof (cases "f x")
    case None
    then show ?thesis by (auto simp: list_all2_Cons1)
  next
    case (Some y)
    then show ?thesis
      using Cons.IH by (cases "those (map f xs)") (auto simp: list_all2_Cons1)
  qed
qed

lemma s_walk_refines:
  "list_all2 R refs ts \<Longrightarrow>
    (s_walk (zip refs ts) random c = None \<and> walk ts random c = None)
    \<or> (\<exists>a t. s_walk (zip refs ts) random c = Some a \<and> walk ts random c = Some t \<and> R a t)"
  by (induction refs ts arbitrary: c rule: list_all2_induct) auto

lemma list_all2_last:
  "list_all2 R xs ys \<Longrightarrow> xs \<noteq> [] \<Longrightarrow> R (last xs) (last ys)"
  by (induction xs ys rule: list_all2_induct) (auto simp: list_all2_Nil)

lemma filter_refines:
  "list_all2 (\<lambda>a t. readTeam h a = Some t) refs ts \<Longrightarrow>
     list_all2 (\<lambda>a t. readTeam h a = Some t)
       (filter (\<lambda>a. map_option userId (readTeam h a) \<noteq> Some uid) refs)
       (filter (\<lambda>t. userId t \<noteq> uid) ts)"
  by (induction refs ts rule: list_all2_induct) auto

lemma keepsObjects_refl: "keepsObjects h h"
  by (simp add: keepsObjects_def)

lemma keepsObjects_trans: "keepsObjects h h1 \<Longrightarrow> keepsObjects h1 h2 \<Longrightarrow> keepsObjects h h2"
  by (simp add: keepsObjects_def)

lemma alloc_keeps:
  assumes "wellFormed h" and "alloc h c = (a, h')"
  shows "wellFormed h'" and "keepsObjects h h'"
    and "\<And>x. x \<noteq> a \<Longrightarrow> cells h' x = cells h x" and "cells h' a = Some c"
    and "cells h a = None" and "a = nextFree h"
  using assms
  by (auto simp: wellFormed_def keepsObjects_def alloc_def readTeam_def readSelection_def
      less_Suc_eq split: option.splits cell.splits)

lemma unshift_keeps:
  assumes "wellFormed h"
  shows "wellFormed (unshift h a x)" and "keepsObjects h (unshift h a x)"
    and "\<And>y. y \<noteq> a \<Longrightarrow> cells (unshift h a x) y = cells h y"
    and "readArray h a = Some refs \<Longrightarrow> readArray (unshift h a x) a = Some (x # refs)"
  using assms
  by (auto simp: wellFormed_def keepsObjects_def unshift_def readTeam_def readSelection_def
      readArray_def split: option.splits cell.splits)

lemma s_select_refines:
  assumes "wellFormed h" and "readArray h av = Some refs"
    and "list_all2 (\<lambda>a t. readTeam h a = Some t) refs ts"
    and "s_selectWinnerByCombinations h av u = (r1, h1)"
  shows "wellFormed h1" and "keepsObjects h h1"
    and "\<And>x. cells h x \<noteq> None \<Longrightarrow> cells h1 x = cells h x"
    and "case selectWinnerByCombinations ts u of
           Inl e \<Rightarrow> r1 = Inl (Raised e)
         | Inr t \<Rightarrow> \<exists>a. r1 = Inr a \<and> readTeam h a = Some t"
proof -
  have len: "length refs = length ts" using assms(3) by (rule list_all2_lengthD)
  have those: "those (map (readTeam h) refs) = Some ts"
    using assms(3) by (simp add: those_map_iff)
  obtain w h2 where a: "alloc h (NumArray (map weight ts)) = (w, h2)"
    by (cases "alloc h (NumArray (map weight ts))")
  note keeps = alloc_keeps [OF assms(1) a]
  have h1: "h1 = h \<or> h1 = h2"
    using assms(2,4) those a
    by (auto simp: s_selectWinnerByCombinations_def Let_def split: if_splits option.splits)
  then show "wellFormed h1" using assms(1) keeps(1) by auto
  from h1 show "keepsObjects h h1" using keeps(2) keepsObjects_refl by auto
  show "cells h1 x = cells h x" if "cells h x \<noteq> None" for x
  proof -
    from that keeps(5) have "x \<noteq> w" by auto
    then have "cells h2 x = cells h x" by (rule keeps(3))
    with h1 show ?thesis by auto
  qed
  show "case selectWinnerByCombinations ts u of
           Inl e \<Rightarrow> r1 = Inl (Raised e)
         | Inr t \<Rightarrow> \<exists>a. r1 = Inr a \<and> readTeam h a = Some t"
  proof (cases "refs = []")
    case True
    with len have "ts = []" by simp
    with True assms(2,4) show ?thesis
      by (simp add: s_selectWinnerByCombinations_def selectWinnerByCombinations_def)
  next
    case False
    with len have ne: "ts \<noteq> []" by auto
    let ?tot = "calculateTotalCombinations (map weight ts)"
    show ?thesis
    proof (cases "?tot = 0")
      case True
      with False ne assms(2,4) those a show ?thesis
        by (simp add: s_selectWinnerByCombinations_def selectWinnerByCombinations_def)
    next
      case nz: False
      from s_walk_refines [OF assms(3), of "drawRandom u ?tot" 0]
      show ?thesis
      proof (elim disjE conjE exE)
        assume "s_walk (zip refs ts) (drawRandom u ?tot) 0 = None"
          "walk ts (drawRandom u ?tot) 0 = None"
        moreover have "readTeam h (last refs) = Some (last ts)"
          using list_all2_last [OF assms(3) False] .
        ultimately show ?thesis
          using nz False ne assms(2,4) those a
          by (auto simp: s_selectWinnerByCombinations_def selectWinnerByCombinations_def)
      next
        fix a t
        assume "s_walk (zip refs ts) (drawRandom u ?tot) 0 = Some a"
          "walk ts (drawRandom u ?tot) 0 = Some t" "readTeam h a = Some t"
        then show ?thesis
          using nz False ne assms(2,4) those a
          by (auto simp: s_selectWinnerByCombinations_def selectWinnerByCombinations_def)
      qed
    qed
  qed
qed

lemma alloc_nextFree: "alloc h c = (a, h') \<Longrightarrow> nextFree h' = Suc (nextFree h)"
  by (auto simp: alloc_def)

lemma teams_keep:
  "list_all2 (\<lambda>a t. readTeam h a = Some t) xs ys \<Longrightarrow> keepsObjects h h' \<Longrightarrow>
     list_all2 (\<lambda>a t. readTeam h' a = Some t) xs ys"
  by (erule list_all2_mono) (simp add: keepsObjects_def)

lemma selections_keep:
  "list_all2 (\<lambda>a s. readSelection h a = Some s) xs ys \<Longrightarrow> keepsObjects h h' \<Longrightarrow>
     list_all2 (\<lambda>a s. readSelection h' a = Some s) xs ys"
  by (erule list_all2_mono) (simp add: keepsObjects_def)

lemma absEvent_keeps:
  "absEvent h e = Some pe \<Longrightarrow> keepsObjects h h' \<Longrightarrow> absEvent h' e = Some pe"
  by (cases e) (auto simp: keepsObjects_def)

lemma events_keep:
  "list_all2 (\<lambda>e pe. absEvent h e = Some pe) xs ys \<Longrightarrow> keepsObjects h h' \<Longrightarrow>
     list_all2 (\<lambda>e pe. absEvent h' e = Some pe) xs ys"
  by (erule list_all2_mono) (rule absEvent_keeps)

lemma readArray_cells:
  "readArray h a = Some refs \<Longrightarrow> cells h' a = cells h a \<Longrightarrow> readArray h' a = Some refs"
  by (simp add: readArray_def)

lemma readArray_in_use: "readArray h a = Some refs \<Longrightarrow> cells h a \<noteq> None"
  by (auto simp: readArray_def split: option.splits)

lemma s_loop_refines:
  assumes "wellFormed h"
    and "readArray h av = Some refs"
    and "list_all2 (\<lambda>a t. readTeam h a = Some t) refs ts"
    and "readArray h sels = Some srefs"
    and "list_all2 (\<lambda>a s. readSelection h a = Some s) srefs ss"
    and "list_all2 (\<lambda>e pe. absEvent h e = Some pe) tr ptr"
    and "s_lotteryLoop rnd cb d n p av sels h tr = (r, h', tr')"
  shows "\<exists>pr ptr'. lotteryLoop rnd cb d n p ts ss ptr = (pr, ptr')
           \<and> list_all2 (\<lambda>e pe. absEvent h' e = Some pe) tr' ptr'
           \<and> (case pr of
                 Inl e \<Rightarrow> r = Inl (Raised e)
               | Inr out \<Rightarrow> r = Inr sels
                   \<and> (\<exists>orefs. readArray h' sels = Some orefs
                         \<and> list_all2 (\<lambda>a s. readSelection h' a = Some s) orefs out))"
  using assms
proof (induction "Suc n - p" arbitrary: p av refs ts srefs ss h tr ptr)
  case 0
  then have "\<not> p \<le> n" by simp
  with "0.prems"(7) have "r = Inr sels" "h' = h" "tr' = tr"
    by (simp_all add: s_lotteryLoop.simps [of _ _ _ n p])
  moreover have "lotteryLoop rnd cb d n p ts ss ptr = (Inr ss, ptr)"
    using \<open>\<not> p \<le> n\<close> by (simp add: lotteryLoop.simps [of _ _ _ n p])
  ultimately show ?case
    using "0.prems"(4,5,6) by auto
next
  case (Suc k)
  then have le: "p \<le> n" by simp
  obtain r1 h1 where sel: "s_selectWinnerByCombinations h av (rnd (p - 1)) = (r1, h1)"
    by (cases "s_selectWinnerByCombinations h av (rnd (p - 1))")
  note s1 = s_select_refines [OF Suc.prems(1,2,3) sel]
  have ev1: "list_all2 (\<lambda>e pe. absEvent h1 e = Some pe) (tr @ [SWait d]) (ptr @ [Wait d])"
    using events_keep [OF Suc.prems(6) s1(2)] by (simp add: list_all2_appendI)
  show ?case
  proof (cases "selectWinnerByCombinations ts (rnd (p - 1))")
    case (Inl e)
    with s1(4) have r1: "r1 = Inl (Raised e)" by simp
    with Suc.prems(7) le sel have "r = Inl (Raised e)" "h' = h1" "tr' = tr @ [SWait d]"
      by (simp_all add: s_lotteryLoop.simps [of _ _ _ n p])
    moreover have "lotteryLoop rnd cb d n p ts ss ptr = (Inl e, ptr @ [Wait d])"
      using le Inl by (simp add: lotteryLoop.simps [of _ _ _ n p])
    ultimately show ?thesis using ev1 by auto
  next
    case (Inr t)
    with s1(4) obtain a where r1: "r1 = Inr a" and a: "readTeam h a = Some t" by auto
    have a1: "readTeam h1 a = Some t"
      using a s1(2) by (simp add: keepsObjects_def)
    show ?thesis
    proof (cases "userId t = []")
      case True
      with Suc.prems(7) le sel r1 a1
      have "r = Inl (Raised InvalidTeam)" "h' = h1" "tr' = tr @ [SWait d]"
        by (simp_all add: s_lotteryLoop.simps [of _ _ _ n p])
      moreover have "lotteryLoop rnd cb d n p ts ss ptr = (Inl InvalidTeam, ptr @ [Wait d])"
        using le Inr True by (simp add: lotteryLoop.simps [of _ _ _ n p])
      ultimately show ?thesis using ev1 by auto
    next
      case False
      let ?dp = "int n - int p + 1"
      let ?frefs = "filter (\<lambda>a. map_option userId (readTeam h1 a) \<noteq> Some (userId t)) refs"
      let ?fts = "filter (\<lambda>x. userId x \<noteq> userId t) ts"
      let ?mk = "mkSelection t p ?dp"
      have av1: "readArray h1 av = Some refs"
        using Suc.prems(2) s1(3) [OF readArray_in_use [OF Suc.prems(2)]]
        by (rule readArray_cells)
      have sels1: "readArray h1 sels = Some srefs"
        using Suc.prems(4) s1(3) [OF readArray_in_use [OF Suc.prems(4)]]
        by (rule readArray_cells)
      obtain av' h2 where al2: "alloc h1 (RefArray ?frefs) = (av', h2)"
        by (cases "alloc h1 (RefArray ?frefs)")
      obtain s h3 where al3: "alloc h2 (SelectionObj ?mk) = (s, h3)"
        by (cases "alloc h2 (SelectionObj ?mk)")
      let ?h4 = "unshift h3 sels s"
      let ?tr = "tr @ [SWait d] @ (if cb then [SOnSelection a ?dp p] else [])"
      let ?ptr = "ptr @ [Wait d] @ (if cb then [OnSelection t ?dp p] else [])"
      have rec: "s_lotteryLoop rnd cb d n (Suc p) av' sels ?h4 ?tr = (r, h', tr')"
        using Suc.prems(7) le sel r1 a1 False av1 al2 al3
        by (simp add: s_lotteryLoop.simps [of _ _ _ n p av])
      have prec: "lotteryLoop rnd cb d n p ts ss ptr
            = lotteryLoop rnd cb d n (Suc p) ?fts (?mk # ss) ?ptr"
        using le Inr False by (simp add: lotteryLoop.simps [of _ _ _ n p ts])
      note k2 = alloc_keeps [OF s1(1) al2]
      note k3 = alloc_keeps [OF k2(1) al3]
      note k4 = unshift_keeps [OF k3(1), where a = sels and x = s]
      have keep14: "keepsObjects h1 ?h4"
        using k2(2) k3(2) k4(2) by (blast intro: keepsObjects_trans)
      have keep04: "keepsObjects h ?h4"
        using s1(2) keep14 by (rule keepsObjects_trans)
      have in1: "cells h1 sels \<noteq> None"
        using sels1 by (rule readArray_in_use)
      have ne2: "sels \<noteq> av'"
        using in1 k2(5) by auto
      then have "cells h2 sels \<noteq> None"
        using in1 k2(3) [of sels] by simp
      then have ne3: "sels \<noteq> s"
        using k3(5) by auto
      note sels_ne = ne2 ne3
      have "av' \<noteq> s" using k2(6) k3(6) alloc_nextFree [OF al2] by simp
      then have "cells ?h4 av' = Some (RefArray ?frefs)"
        using k2(4) k3(3) [of av'] k4(3) [of av'] sels_ne(1) by simp
      then have av4: "readArray ?h4 av' = Some ?frefs"
        by (simp add: readArray_def)
      have "cells h3 sels = cells h1 sels"
        using k2(3) [of sels] k3(3) [of sels] sels_ne by simp
      with sels1 have "readArray h3 sels = Some srefs"
        by (rule readArray_cells)
      then have sels4: "readArray ?h4 sels = Some (s # srefs)"
        by (rule k4(4))
      have teams4: "list_all2 (\<lambda>a t. readTeam ?h4 a = Some t) ?frefs ?fts"
        using teams_keep [OF filter_refines [OF teams_keep [OF Suc.prems(3) s1(2)]] keep14] .
      have "readSelection h3 s = Some ?mk"
        using k3(4) by (simp add: readSelection_def)
      then have "readSelection ?h4 s = Some ?mk"
        using k4(2) by (simp add: keepsObjects_def)
      then have ss4: "list_all2 (\<lambda>a s. readSelection ?h4 a = Some s) (s # srefs) (?mk # ss)"
        using selections_keep [OF Suc.prems(5) keep04] by simp
      have "absEvent ?h4 (SOnSelection a ?dp p) = Some (OnSelection t ?dp p)"
        using a keep04 by (simp add: keepsObjects_def)
      then have ev4: "list_all2 (\<lambda>e pe. absEvent ?h4 e = Some pe) ?tr ?ptr"
        using events_keep [OF Suc.prems(6) keep04] by (auto intro!: list_all2_appendI)
      have "k = Suc n - Suc p" using Suc.hyps(2) by simp
      from Suc.hyps(1) [OF this k4(1) av4 teams4 sels4 ss4 ev4 rec] prec
      show ?thesis by simp
    qed
  qed
qed

text \<open>
  The run on the store computes the run on values: from a well-formed store in which the
  array \<open>teams\<close> holds the addresses of the team objects \<open>ts\<close>, it ends as the run on \<open>ts\<close>
  does, the array it returns holds the records of that run, and its events are the events
  of that run.
\<close>

lemma s_run_refines:
  assumes "wellFormed h"
    and "readArray h teams = Some refs"
    and "list_all2 (\<lambda>a t. readTeam h a = Some t) refs ts"
    and "s_runNBALottery h teams cb delay rnd = (r, h', tr)"
  shows "\<exists>pr ptr. runNBALottery ts cb delay rnd = (pr, ptr)
           \<and> list_all2 (\<lambda>e pe. absEvent h' e = Some pe) tr ptr
           \<and> (case pr of
                 Inl e \<Rightarrow> r = Inl (Raised e)
               | Inr out \<Rightarrow> \<exists>sa orefs. r = Inr sa \<and> readArray h' sa = Some orefs
                     \<and> list_all2 (\<lambda>a s. readSelection h' a = Some s) orefs out)"
proof (cases "refs = []")
  case True
  with assms(3) have "ts = []" by simp
  with True assms(2,4) show ?thesis
    by (simp add: s_runNBALottery_def runNBALottery_def)
next
  case False
  have len: "length refs = length ts" using assms(3) by (rule list_all2_lengthD)
  with False have ne: "ts \<noteq> []" by auto
  obtain sels h1 where a1: "alloc h (RefArray []) = (sels, h1)"
    by (cases "alloc h (RefArray [])")
  obtain av h2 where a2: "alloc h1 (RefArray refs) = (av, h2)"
    by (cases "alloc h1 (RefArray refs)")
  have loop: "s_lotteryLoop rnd cb (effectiveDelay delay) (length ts) 1 av sels h2 [] = (r, h', tr)"
    using assms(2,4) False a1 a2 len by (simp add: s_runNBALottery_def)
  note k1 = alloc_keeps [OF assms(1) a1]
  note k2 = alloc_keeps [OF k1(1) a2]
  have "sels \<noteq> av" using k1(4) k2(5) by auto
  then have "cells h2 sels = Some (RefArray [])"
    using k1(4) k2(3) [of sels] by simp
  then have sels2: "readArray h2 sels = Some []"
    by (simp add: readArray_def)
  have av2: "readArray h2 av = Some refs"
    using k2(4) by (simp add: readArray_def)
  have keep: "keepsObjects h h2"
    using k1(2) k2(2) by (rule keepsObjects_trans)
  have teams2: "list_all2 (\<lambda>a t. readTeam h2 a = Some t) refs ts"
    using assms(3) keep by (rule teams_keep)
  have "list_all2 (\<lambda>a s. readSelection h2 a = Some s) [] []"
    and "list_all2 (\<lambda>e pe. absEvent h2 e = Some pe) [] []"
    by simp_all
  from s_loop_refines [OF k2(1) av2 teams2 sels2 this loop]
  obtain pr ptr where p:
    "lotteryLoop rnd cb (effectiveDelay delay) (length ts) 1 ts [] [] = (pr, ptr)"
    "list_all2 (\<lambda>e pe. absEvent h' e = Some pe) tr ptr"
    "case pr of
       Inl e \<Rightarrow> r = Inl (Raised e)
     | Inr out \<Rightarrow> r = Inr sels
         \<and> (\<exists>orefs. readArray h' sels = Some orefs
               \<and> list_all2 (\<lambda>a s. readSelection h' a = Some s) orefs out)"
    by blast
  have "runNBALottery ts cb delay rnd = (pr, ptr)"
    using ne p(1) by (simp add: runNBALottery_def)
  moreover have "case pr of
       Inl e \<Rightarrow> r = Inl (Raised e)
     | Inr out \<Rightarrow> \<exists>sa orefs. r = Inr sa \<and> readArray h' sa = Some orefs
         \<and> list_all2 (\<lambda>a s. readSelection h' a = Some s) orefs out"
    using p(3) by (cases pr) auto
  ultimately show ?thesis using p(2) by blast
qed

end
